theory Spec2Isabelle
  imports Main "HOL-Library.Sublist"
begin

section \<open>JavaScript strings\<close>

text \<open>
  A JavaScript string is a sequence of UTF-16 code units; a code unit is a number below
  65536. None of the functions below depends on that bound. \<open>str\<close> turns a literal of
  the theory into such a string, and \<open>cu\<close> a character into its code unit.
\<close>

type_synonym jschar = nat
type_synonym jsstring = "jschar list"

abbreviation cu :: "char \<Rightarrow> jschar" where
  "cu c \<equiv> of_char c"

definition str :: "string \<Rightarrow> jsstring" where
  "str s = map of_char s"

text \<open>
  \<open>String.prototype.trim\<close> removes, at both ends, the code units that ECMAScript calls
  WhiteSpace or LineTerminator: TAB, LF, VT, FF, CR, SPACE, NBSP, U+1680, U+2000 to U+200A,
  U+2028, U+2029, U+202F, U+205F, U+3000 and U+FEFF.
\<close>

definition isWhiteSpace :: "jschar \<Rightarrow> bool" where
  "isWhiteSpace c \<longleftrightarrow>
     c \<in> set [0x9, 0xA, 0xB, 0xC, 0xD, 0x20, 0xA0, 0x1680, 0x2028, 0x2029, 0x202F, 0x205F,
              0x3000, 0xFEFF]
     \<or> (0x2000 \<le> c \<and> c \<le> 0x200A)"

definition trim :: "jsstring \<Rightarrow> jsstring" where
  "trim s = rev (dropWhile isWhiteSpace (rev (dropWhile isWhiteSpace s)))"

text \<open>
  \<open>String.prototype.toLowerCase\<close>, code unit by code unit. The code units whose
  lower-case form contains a letter a to z are the capitals A to Z, U+0130 (capital I with
  dot above, which becomes \<open>i\<close> followed by U+0307) and U+212A (the Kelvin sign, which
  becomes \<open>k\<close>). Every other code unit has a lower-case form outside a to z, or none;
  the model keeps it as it is. \<open>wordToPhonetics\<close> cannot observe that, since it removes
  every code unit outside a to z right after lower-casing. \<open>groupHomonyms\<close> and
  \<open>homonymConflicts\<close> can: on a word with a capital outside ASCII other than these two
  (U+00C9, say) JavaScript compares the lower-cased word and the model the word as written.
  What is proved about them below holds whatever \<open>toLowerCase\<close> computes.
\<close>

definition toLowerCaseUnit :: "jschar \<Rightarrow> jsstring" where
  "toLowerCaseUnit c =
     (if cu CHR ''A'' \<le> c \<and> c \<le> cu CHR ''Z'' then [c + 32]
      else if c = 0x130 then [cu CHR ''i'', 0x307]
      else if c = 0x212A then [cu CHR ''k'']
      else [c])"

definition toLowerCase :: "jsstring \<Rightarrow> jsstring" where
  "toLowerCase s = concat (map toLowerCaseUnit s)"

text \<open>\<open>num.split('')\<close>: the one-unit strings of a string, in order.\<close>

definition split :: "jsstring \<Rightarrow> jsstring list" where
  "split s = map (\<lambda>c. [c]) s"

text \<open>
  \<open>Array.prototype.indexOf(x, fromIndex)\<close> for a \<open>fromIndex\<close> that is not negative:
  the first index at or after \<open>fromIndex\<close> whose element equals \<open>x\<close>, and -1 when there
  is none.
\<close>

function indexOf :: "'a list \<Rightarrow> 'a \<Rightarrow> nat \<Rightarrow> int" where
  "indexOf xs x fromIndex =
     (if fromIndex < length xs
      then (if xs ! fromIndex = x then int fromIndex else indexOf xs x (fromIndex + 1))
      else - 1)"
  by pat_completeness auto
termination
  by (relation "measure (\<lambda>(xs, x, fromIndex). length xs - fromIndex)") auto

declare indexOf.simps [simp del]

section \<open>The phonetic encoder\<close>

text \<open>
  \<open>wordToPhonetics\<close> of the word-list component. Its first line is
  \<open>const normalized = word.toLowerCase().replace(/[^a-z]/g, '')\<close>:
\<close>

definition normalizedForm :: "jsstring \<Rightarrow> jsstring" where
  "normalizedForm word = filter (\<lambda>c. cu CHR ''a'' \<le> c \<and> c \<le> cu CHR ''z'') (toLowerCase word)"

text \<open>
  The loop of \<open>wordToPhonetics\<close> over the index \<open>i\<close>, with the array \<open>phonetics\<close> it
  pushes to. \<open>normalized[i + 1]\<close> is \<open>undefined\<close> past the end, which no comparison with a
  letter accepts: it is \<open>None\<close> here.
\<close>

function phoneticsLoop :: "jsstring \<Rightarrow> nat \<Rightarrow> jsstring list \<Rightarrow> jsstring list" where
  "phoneticsLoop normalized i phonetics =
     (if i < length normalized then
        (let char = normalized ! i;
             nextChar = (if i + 1 < length normalized then Some (normalized ! (i + 1)) else None)
         in if char = cu CHR ''c'' \<and> nextChar = Some (cu CHR ''h'')
            then phoneticsLoop normalized (i + 2) (phonetics @ [str ''ch''])
            else if char = cu CHR ''s'' \<and> nextChar = Some (cu CHR ''h'')
            then phoneticsLoop normalized (i + 2) (phonetics @ [str ''sh''])
            else if char = cu CHR ''t'' \<and> nextChar = Some (cu CHR ''h'')
            then phoneticsLoop normalized (i + 2) (phonetics @ [str ''th''])
            else if char = cu CHR ''p'' \<and> nextChar = Some (cu CHR ''h'')
            then phoneticsLoop normalized (i + 2) (phonetics @ [str ''ph''])
            else if char = cu CHR ''q'' \<and> nextChar = Some (cu CHR ''u'')
            then phoneticsLoop normalized (i + 2) (phonetics @ [str ''qu''])
            else if char = cu CHR ''c''
            then (if nextChar = Some (cu CHR ''e'') \<or> nextChar = Some (cu CHR ''i'')
                     \<or> nextChar = Some (cu CHR ''y'')
                  then phoneticsLoop normalized (i + 1) (phonetics @ [str ''s''])
                  else phoneticsLoop normalized (i + 1) (phonetics @ [str ''k'']))
            else if char = cu CHR ''g''
            then (if nextChar = Some (cu CHR ''e'') \<or> nextChar = Some (cu CHR ''i'')
                     \<or> nextChar = Some (cu CHR ''y'')
                  then phoneticsLoop normalized (i + 1) (phonetics @ [str ''j''])
                  else phoneticsLoop normalized (i + 1) (phonetics @ [str ''g'']))
            else phoneticsLoop normalized (i + 1) (phonetics @ [[char]]))
      else phonetics)"
  by pat_completeness auto
termination
  by (relation "measure (\<lambda>(normalized, i, phonetics). length normalized - i)") auto

declare phoneticsLoop.simps [simp del]

definition wordToPhonetics :: "jsstring \<Rightarrow> jsstring list" where
  "wordToPhonetics word = phoneticsLoop (normalizedForm word) 0 []"

section \<open>The digit mapper\<close>

text \<open>
  The object literal \<open>digitMap\<close>, and the lookup \<open>digitMap[phonetic] || null\<close>, with
  \<open>None\<close> for \<open>null\<close>. Every value of the table is a non-empty string, hence truthy. A
  lookup also finds the members an object inherits from \<open>Object.prototype\<close>
  (\<open>constructor\<close>, \<open>toString\<close> and the like); their names all have more than two
  characters, the encoder emits symbols of one or two letters, and the model leaves them out.
\<close>

definition digitMap :: "(jsstring \<times> jsstring) list" where
  "digitMap =
     [(str ''s'', str ''0''), (str ''z'', str ''0''),
      (str ''t'', str ''1''), (str ''d'', str ''1''), (str ''th'', str ''1''),
      (str ''n'', str ''2''),
      (str ''m'', str ''3''),
      (str ''r'', str ''4''),
      (str ''l'', str ''5''),
      (str ''j'', str ''6''), (str ''sh'', str ''6''), (str ''ch'', str ''6''),
      (str ''k'', str ''7''), (str ''g'', str ''7''), (str ''q'', str ''7''), (str ''qu'', str ''7''),
      (str ''f'', str ''8''), (str ''v'', str ''8''), (str ''ph'', str ''8''),
      (str ''p'', str ''9''), (str ''b'', str ''9'')]"

definition phoneticToDigit :: "jsstring \<Rightarrow> jsstring option" where
  "phoneticToDigit phonetic = map_of digitMap phonetic"

section \<open>The pattern validator\<close>

text \<open>
  \<open>validateWord\<close> and \<open>getValidPositionsForWord\<close> of the word-list component.
  \<open>wordDigits\<close> is the array of that name in \<open>validateWord\<close>: the digits of the word's
  symbols, those without a digit filtered out.
\<close>

definition wordDigits :: "jsstring \<Rightarrow> jsstring list" where
  "wordDigits word =
     map the (filter (\<lambda>d. d \<noteq> None) (map (\<lambda>p. phoneticToDigit p) (wordToPhonetics word)))"

text \<open>
  The loop over \<open>expectedDigits\<close> with its cursor \<open>wordIndex\<close> into the word's digits
  (\<open>digits\<close> here); an early \<open>return false\<close> ends it.
\<close>

fun expectedLoop :: "jsstring list \<Rightarrow> jsstring list \<Rightarrow> nat \<Rightarrow> bool" where
  "expectedLoop [] digits wordIndex = True"
| "expectedLoop (expectedDigit # rest) digits wordIndex =
     (let digitIndex = indexOf digits expectedDigit wordIndex
      in if digitIndex = - 1 then False
         else expectedLoop rest digits (nat (digitIndex + 1)))"

definition validateWord :: "jsstring \<Rightarrow> jsstring \<Rightarrow> bool" where
  "validateWord num word =
     (if trim word = [] then True
      else let expectedDigits = split num
           in if length expectedDigits = 0 then True
              else expectedLoop expectedDigits (wordDigits word) 0)"

text \<open>
  \<open>Number.prototype.toString\<close> on a natural number (decimal digits, no sign), and
  \<open>String.prototype.padStart\<close>: a string already long enough, or an empty filler, leave the
  string as it is; otherwise the filler is repeated and cut to the missing length.
\<close>

function toString :: "nat \<Rightarrow> jsstring" where
  "toString n = (if n < 10 then [cu CHR ''0'' + n] else toString (n div 10) @ [cu CHR ''0'' + n mod 10])"
  by pat_completeness auto
termination
  by (relation "measure (\<lambda>n. n)") auto

declare toString.simps [simp del]

definition padStart :: "jsstring \<Rightarrow> nat \<Rightarrow> jsstring \<Rightarrow> jsstring" where
  "padStart s targetLength padString =
     (if targetLength \<le> length s \<or> padString = [] then s
      else take (targetLength - length s) (concat (replicate (targetLength - length s) padString)) @ s)"

text \<open>The loop of \<open>getValidPositionsForWord\<close> over \<open>i\<close>, with the array it pushes to.\<close>

function positionsLoop :: "jsstring \<Rightarrow> nat \<Rightarrow> jsstring list \<Rightarrow> jsstring list" where
  "positionsLoop word i validPositions =
     (if i < 100 then
        (let num = padStart (toString i) 2 (str ''0'')
         in if validateWord num word then positionsLoop word (i + 1) (validPositions @ [num])
            else positionsLoop word (i + 1) validPositions)
      else validPositions)"
  by pat_completeness auto
termination
  by (relation "measure (\<lambda>(word, i, validPositions). 100 - i)") auto

declare positionsLoop.simps [simp del]

definition getValidPositionsForWord :: "jsstring \<Rightarrow> jsstring list" where
  "getValidPositionsForWord word = (if trim word = [] then [] else positionsLoop word 0 [])"

section \<open>Homonyms\<close>

text \<open>
  \<open>groupHomonyms\<close> of \<open>services/homonyms.ts\<close> and \<open>homonymConflicts\<close> of the word-list
  component. A JavaScript \<open>Set\<close> is the list of its elements in insertion order, without repetition;
  \<open>setAdd\<close> is \<open>Set.prototype.add\<close> and \<open>newSet xs\<close> is \<open>new Set(xs)\<close>, read back as
  an array.
\<close>

definition setAdd :: "'a \<Rightarrow> 'a list \<Rightarrow> 'a list" where
  "setAdd x s = (if x \<in> set s then s else s @ [x])"

definition newSet :: "'a list \<Rightarrow> 'a list" where
  "newSet xs = fold setAdd xs []"

record HomonymGroup =
  phoneticCode :: jsstring
  words :: "jsstring list"

text \<open>
  \<open>phoneticMap\<close> is a JavaScript \<open>Map\<close> that is iterated at the end: an association list
  in insertion order. \<open>mapPush\<close> is the pair of statements
  \<open>if (!m.has(k)) m.set(k, []); m.get(k).push(v)\<close>.
\<close>

definition mapPush :: "'k \<Rightarrow> 'v \<Rightarrow> ('k \<times> 'v list) list \<Rightarrow> ('k \<times> 'v list) list" where
  "mapPush k v m =
     (let m' = (if k \<in> set (map fst m) then m else m @ [(k, [])])
      in map (\<lambda>(k', vs). if k' = k then (k', vs @ [v]) else (k', vs)) m')"

text \<open>
  The library function \<open>doubleMetaphone\<close> is not part of the repository: \<open>metaphone w\<close>
  stands for \<open>doubleMetaphone(w)[0]\<close>, the primary code, and is a parameter. The body of the
  first loop of \<open>groupHomonyms\<close>, for one word:
\<close>

definition collectWord ::
  "(jsstring \<Rightarrow> jsstring) \<Rightarrow> bool \<Rightarrow> jsstring \<Rightarrow> (jsstring \<times> jsstring list) list
     \<Rightarrow> (jsstring \<times> jsstring list) list" where
  "collectWord metaphone caseSensitive word phoneticMap =
     (let normalizedWord = (if caseSensitive then word else toLowerCase word);
          trimmedWord = trim normalizedWord
      in if trimmedWord = [] then phoneticMap
         else let phoneticCode = metaphone trimmedWord
              in mapPush phoneticCode trimmedWord phoneticMap)"

definition groupHomonyms ::
  "(jsstring \<Rightarrow> jsstring) \<Rightarrow> jsstring list \<Rightarrow> bool \<Rightarrow> HomonymGroup list" where
  "groupHomonyms metaphone ws caseSensitive =
     (let phoneticMap = fold (collectWord metaphone caseSensitive) ws []
      in map (\<lambda>(code, groupWords). \<lparr>phoneticCode = code, words = newSet groupWords\<rparr>)
           (filter (\<lambda>(code, groupWords). length groupWords > 1) phoneticMap))"

text \<open>
  \<open>homonymConflicts\<close>. The state \<open>words\<close> is a JavaScript object from keys to words;
  \<open>Object.entries\<close> lists its entries, each key once: \<open>wordTable\<close> is that list.
  \<open>wordToNumbers\<close> and \<open>conflicts\<close> are \<open>Map\<close>s that are only looked up, never
  iterated: maps. \<open>recordGroup\<close> is the body of \<open>homonymGroups.forEach\<close>.
\<close>

definition recordNumber ::
  "jsstring \<times> jsstring \<Rightarrow> (jsstring \<rightharpoonup> jsstring list) \<Rightarrow> (jsstring \<rightharpoonup> jsstring list)" where
  "recordNumber entry wordToNumbers =
     (let num = fst entry; word = snd entry;
          m = (if wordToNumbers word = None then wordToNumbers(word \<mapsto> []) else wordToNumbers)
      in m(word \<mapsto> (case m word of None \<Rightarrow> [] | Some nums \<Rightarrow> nums) @ [num]))"

definition recordGroup ::
  "(jsstring \<rightharpoonup> jsstring list) \<Rightarrow> HomonymGroup \<Rightarrow> (jsstring \<rightharpoonup> jsstring list)
     \<Rightarrow> (jsstring \<rightharpoonup> jsstring list)" where
  "recordGroup wordToNumbers homonymGroup conflicts =
     (let numbersInGroup =
            fold (\<lambda>word s. fold setAdd (case wordToNumbers word of None \<Rightarrow> [] | Some nums \<Rightarrow> nums) s)
              (words homonymGroup) [];
          numbersList = numbersInGroup
      in if length numbersList > 1
         then fold (\<lambda>num c. c(num \<mapsto> filter (\<lambda>n. n \<noteq> num) numbersList)) numbersList conflicts
         else conflicts)"

definition homonymConflicts ::
  "(jsstring \<Rightarrow> jsstring) \<Rightarrow> (jsstring \<times> jsstring) list \<Rightarrow> (jsstring \<rightharpoonup> jsstring list)" where
  "homonymConflicts metaphone wordTable =
     (let filledWords =
            map (\<lambda>(num, word). (num, toLowerCase (trim word)))
              (filter (\<lambda>(num, word). word \<noteq> [] \<and> trim word \<noteq> []) wordTable)
      in if length filledWords = 0 then Map.empty
         else let wordToNumbers = fold recordNumber filledWords Map.empty;
                  allWords = map snd filledWords;
                  homonymGroups = groupHomonyms metaphone allWords False
              in fold (recordGroup wordToNumbers) homonymGroups Map.empty)"

section \<open>Notions used in the statements and proofs\<close>

text \<open>
  The encoder, read as a recursion over the letters that remain: \<open>digraph c d\<close> says that
  the loop takes \<open>c\<close> and \<open>d\<close> together, \<open>sound c next\<close> is what it pushes for a letter
  taken alone, and \<open>encode\<close> runs over the list. \<open>phoneticsLoop\<close> is proved equal to it
  below.
\<close>

definition digraph :: "jschar \<Rightarrow> jschar \<Rightarrow> bool" where
  "digraph c d \<longleftrightarrow>
     (c = cu CHR ''c'' \<or> c = cu CHR ''s'' \<or> c = cu CHR ''t'' \<or> c = cu CHR ''p'') \<and> d = cu CHR ''h''
     \<or> c = cu CHR ''q'' \<and> d = cu CHR ''u''"

definition softens :: "jschar option \<Rightarrow> bool" where
  "softens next \<longleftrightarrow>
     next = Some (cu CHR ''e'') \<or> next = Some (cu CHR ''i'') \<or> next = Some (cu CHR ''y'')"

definition sound :: "jschar \<Rightarrow> jschar option \<Rightarrow> jsstring" where
  "sound c next =
     (if c = cu CHR ''c'' then (if softens next then str ''s'' else str ''k'')
      else if c = cu CHR ''g'' then (if softens next then str ''j'' else str ''g'')
      else [c])"

fun encode :: "jsstring \<Rightarrow> jsstring list" where
  "encode [] = []"
| "encode [c] = [sound c None]"
| "encode (c # d # rest) =
     (if digraph c d then [c, d] # encode rest else sound c (Some d) # encode (d # rest))"

text \<open>
  The digits of a word, letter by letter. \<open>letterSymbol a next\<close> is the symbol the encoder
  emits when it takes up the letter \<open>a\<close> with \<open>next\<close> after it, and \<open>letterDigits\<close> the
  digit of that symbol, if any. \<open>digitsBeforeLast s\<close> collects the digits of all letters of
  \<open>s\<close> but the last. They are proved below to add up to the digits of the encoder.
\<close>

definition nextLetter :: "jsstring \<Rightarrow> jschar option" where
  "nextLetter t = (case t of [] \<Rightarrow> None | b # rest \<Rightarrow> Some b)"

definition letterSymbol :: "jschar \<Rightarrow> jschar option \<Rightarrow> jsstring" where
  "letterSymbol a next =
     (case next of None \<Rightarrow> sound a None
      | Some d \<Rightarrow> if digraph a d then [a, d] else sound a (Some d))"

definition letterDigits :: "jschar \<Rightarrow> jschar option \<Rightarrow> jsstring list" where
  "letterDigits a next =
     (case phoneticToDigit (letterSymbol a next) of None \<Rightarrow> [] | Some d \<Rightarrow> [d])"

abbreviation digitsOf :: "jsstring list \<Rightarrow> jsstring list" where
  "digitsOf ps \<equiv> concat (map (\<lambda>p. case phoneticToDigit p of None \<Rightarrow> [] | Some d \<Rightarrow> [d]) ps)"

fun digitsBeforeLast :: "jsstring \<Rightarrow> jsstring list" where
  "digitsBeforeLast [] = []"
| "digitsBeforeLast [a] = []"
| "digitsBeforeLast (a # b # rest) = letterDigits a (Some b) @ digitsBeforeLast (b # rest)"

text \<open>
  \<open>isConsonant x\<close>: a consonant letter, small or capital; \<open>lowerOf x\<close> is its lower-case
  form. \<open>keepsDigitBefore s x t\<close>, for the letters \<open>s\<close> before and \<open>t\<close> after a place where
  the letter \<open>x\<close> is inserted: the digit of the last letter of \<open>s\<close> is still there after the
  insertion, either because that letter has the same digit next to \<open>x\<close> as it had next to
  its old neighbour, or because \<open>x\<close> itself now gives that digit (or the letter had no
  digit, or there is no letter before).
\<close>

definition isConsonant :: "jschar \<Rightarrow> bool" where
  "isConsonant x \<longleftrightarrow>
     x \<in> set (str ''bcdfghjklmnpqrstvwxyz'') \<or> x \<in> set (str ''BCDFGHJKLMNPQRSTVWXYZ'')"

definition lowerOf :: "jschar \<Rightarrow> jschar" where
  "lowerOf x = hd (toLowerCaseUnit x)"

definition keepsDigitBefore :: "jsstring \<Rightarrow> jschar \<Rightarrow> jsstring \<Rightarrow> bool" where
  "keepsDigitBefore s x t \<longleftrightarrow>
     s = []
     \<or> subseq (letterDigits (last s) (nextLetter t))
          (letterDigits (last s) (Some x) @ letterDigits x (nextLetter t))"

definition isAsciiLetter :: "jschar \<Rightarrow> bool" where
  "isAsciiLetter c \<longleftrightarrow>
     cu CHR ''A'' \<le> c \<and> c \<le> cu CHR ''Z'' \<or> cu CHR ''a'' \<le> c \<and> c \<le> cu CHR ''z''"

text \<open>The key of two decimal digits \<open>a\<close> and \<open>b\<close>, as a string.\<close>

definition twoDigitKey :: "nat \<Rightarrow> nat \<Rightarrow> jsstring" where
  "twoDigitKey a b = [cu CHR ''0'' + a, cu CHR ''0'' + b]"

text \<open>
  \<open>conflictList conflicts num\<close> is what \<open>homonymConflicts.get(num)\<close> lists, nothing when
  the key is absent. \<open>groupNumbers\<close> is the array \<open>numbersList\<close> that \<open>recordGroup\<close>
  builds for a group.
\<close>

definition conflictList :: "(jsstring \<rightharpoonup> jsstring list) \<Rightarrow> jsstring \<Rightarrow> jsstring list" where
  "conflictList conflicts num = (case conflicts num of None \<Rightarrow> [] | Some nums \<Rightarrow> nums)"

definition groupNumbers :: "(jsstring \<rightharpoonup> jsstring list) \<Rightarrow> HomonymGroup \<Rightarrow> jsstring list" where
  "groupNumbers wordToNumbers homonymGroup =
     fold (\<lambda>word s. fold setAdd (case wordToNumbers word of None \<Rightarrow> [] | Some nums \<Rightarrow> nums) s)
       (words homonymGroup) []"

text \<open>
  The invariant of \<open>phoneticMap\<close> in \<open>groupHomonyms\<close>: every code is listed once, and
  every word listed under a code has that code.
\<close>

definition codedBy :: "(jsstring \<Rightarrow> jsstring) \<Rightarrow> (jsstring \<times> jsstring list) list \<Rightarrow> bool" where
  "codedBy metaphone m \<longleftrightarrow>
     distinct (map fst m) \<and> (\<forall>c ws w. (c, ws) \<in> set m \<longrightarrow> w \<in> set ws \<longrightarrow> metaphone w = c)"

section \<open>Evaluation and basic facts\<close>

text \<open>The equations that evaluate the validator on a concrete word.\<close>

lemmas validator_eval =
  validateWord_def wordDigits_def wordToPhonetics_def normalizedForm_def toLowerCase_def
  toLowerCaseUnit_def str_def trim_def isWhiteSpace_def split_def phoneticToDigit_def
  digitMap_def phoneticsLoop.simps indexOf.simps

lemma trim_Nil_iff: "trim s = [] \<longleftrightarrow> (\<forall>c\<in>set s. isWhiteSpace c)"
proof
  assume "trim s = []"
  then have "\<forall>x\<in>set (dropWhile isWhiteSpace s). isWhiteSpace x"
    by (simp add: trim_def)
  then have "dropWhile isWhiteSpace s = []"
    by (metis hd_dropWhile hd_in_set)
  then show "\<forall>c\<in>set s. isWhiteSpace c"
    by simp
next
  assume "\<forall>c\<in>set s. isWhiteSpace c"
  then have "dropWhile isWhiteSpace s = []"
    by simp
  then show "trim s = []"
    unfolding trim_def by (simp del: dropWhile_eq_Nil_conv)
qed

subsection \<open>The cursor walk decides subsequence containment\<close>

lemma expectedLoop_Cons_step:
  "expectedLoop (e # es) ds k =
     (if k < length ds
      then (if ds ! k = e then expectedLoop es ds (Suc k) else expectedLoop (e # es) ds (Suc k))
      else False)"
proof (cases "k < length ds")
  case False
  then show ?thesis by (simp add: indexOf.simps [of ds e k])
next
  case True
  have "nat (int k + 1) = Suc k" by arith
  with True show ?thesis by (simp add: indexOf.simps [of ds e k] Let_def)
qed

lemma expectedLoop_Cons_subseq:
  assumes "\<And>j. expectedLoop es ds j = subseq es (drop j ds)"
  shows "expectedLoop (e # es) ds k = subseq (e # es) (drop k ds)"
proof (induction "length ds - k" arbitrary: k)
  case 0
  then show ?case by (subst expectedLoop_Cons_step) simp
next
  case (Suc n)
  then have lt: "k < length ds" and n: "n = length ds - Suc k" by simp_all
  have d: "drop k ds = ds ! k # drop (Suc k) ds"
    using lt by (simp add: Cons_nth_drop_Suc)
  show ?case
    using lt Suc.hyps(1) [OF n] assms [of "Suc k"]
    by (subst expectedLoop_Cons_step) (simp add: d del: expectedLoop.simps(2))
qed

lemma expectedLoop_subseq: "expectedLoop es ds k = subseq es (drop k ds)"
proof (induction es arbitrary: k)
  case Nil
  show ?case by simp
next
  case (Cons e es)
  show ?case by (rule expectedLoop_Cons_subseq) (rule Cons.IH)
qed

lemma validateWord_subseq:
  "validateWord num word = (trim word = [] \<or> subseq (split num) (wordDigits word))"
  by (cases "split num = []") (simp_all add: validateWord_def expectedLoop_subseq Let_def)

lemma subseq_pair_iff:
  "subseq [x, y] ds \<longleftrightarrow> (\<exists>i j. i < j \<and> j < length ds \<and> ds ! i = x \<and> ds ! j = y)"
proof (induction ds)
  case Nil
  show ?case by simp
next
  case (Cons d ds)
  have later: "(\<exists>i j. i < j \<and> j < length ds \<and> ds ! i = x \<and> ds ! j = y) \<longleftrightarrow>
      (\<exists>i j. 0 < i \<and> i < j \<and> j < length (d # ds) \<and> (d # ds) ! i = x \<and> (d # ds) ! j = y)"
    (is "?L \<longleftrightarrow> ?R")
  proof
    assume ?L
    then obtain i j where "i < j" "j < length ds" "ds ! i = x" "ds ! j = y" by blast
    then have "0 < Suc i \<and> Suc i < Suc j \<and> Suc j < length (d # ds)
        \<and> (d # ds) ! Suc i = x \<and> (d # ds) ! Suc j = y" by simp
    then show ?R by blast
  next
    assume ?R
    then obtain i j where h: "0 < i" "i < j" "j < length (d # ds)" "(d # ds) ! i = x" "(d # ds) ! j = y"
      by blast
    then have "i - 1 < j - 1 \<and> j - 1 < length ds \<and> ds ! (i - 1) = x \<and> ds ! (j - 1) = y"
      by (cases i; cases j) auto
    then show ?L by blast
  qed
  have first: "y \<in> set ds \<longleftrightarrow> (\<exists>j. 0 < j \<and> j < length (d # ds) \<and> (d # ds) ! j = y)"
    (is "?A \<longleftrightarrow> ?B")
  proof
    assume ?A
    then obtain k where "k < length ds" "ds ! k = y" by (auto simp add: in_set_conv_nth)
    then have "0 < Suc k \<and> Suc k < length (d # ds) \<and> (d # ds) ! Suc k = y" by simp
    then show ?B by blast
  next
    assume ?B
    then obtain j where "0 < j" "j < length (d # ds)" "(d # ds) ! j = y" by blast
    then show ?A by (cases j) auto
  qed
  show ?case
  proof (cases "x = d")
    case True
    have "subseq [x, y] (d # ds) \<longleftrightarrow> y \<in> set ds"
      using True by (simp add: subseq_singleton_left)
    also have "\<dots> \<longleftrightarrow> (\<exists>i j. i < j \<and> j < length (d # ds) \<and> (d # ds) ! i = x \<and> (d # ds) ! j = y)"
    proof
      assume "y \<in> set ds"
      with first obtain j where "0 < j" "j < length (d # ds)" "(d # ds) ! j = y" by blast
      with True have "0 < j \<and> j < length (d # ds) \<and> (d # ds) ! 0 = x \<and> (d # ds) ! j = y" by simp
      then show "\<exists>i j. i < j \<and> j < length (d # ds) \<and> (d # ds) ! i = x \<and> (d # ds) ! j = y" by blast
    next
      assume "\<exists>i j. i < j \<and> j < length (d # ds) \<and> (d # ds) ! i = x \<and> (d # ds) ! j = y"
      then obtain i j where "i < j" "j < length (d # ds)" "(d # ds) ! j = y" by blast
      then have "0 < j \<and> j < length (d # ds) \<and> (d # ds) ! j = y" by simp
      with first show "y \<in> set ds" by blast
    qed
    finally show ?thesis .
  next
    case False
    have "subseq [x, y] (d # ds) \<longleftrightarrow> subseq [x, y] ds"
      using False by simp
    also have "\<dots> \<longleftrightarrow> (\<exists>i j. 0 < i \<and> i < j \<and> j < length (d # ds) \<and> (d # ds) ! i = x \<and> (d # ds) ! j = y)"
      using Cons.IH later by simp
    also have "\<dots> \<longleftrightarrow> (\<exists>i j. i < j \<and> j < length (d # ds) \<and> (d # ds) ! i = x \<and> (d # ds) ! j = y)"
    proof
      assume "\<exists>i j. 0 < i \<and> i < j \<and> j < length (d # ds) \<and> (d # ds) ! i = x \<and> (d # ds) ! j = y"
      then show "\<exists>i j. i < j \<and> j < length (d # ds) \<and> (d # ds) ! i = x \<and> (d # ds) ! j = y" by blast
    next
      assume "\<exists>i j. i < j \<and> j < length (d # ds) \<and> (d # ds) ! i = x \<and> (d # ds) ! j = y"
      then obtain i j where h: "i < j" "j < length (d # ds)" "(d # ds) ! i = x" "(d # ds) ! j = y" by blast
      with False have "0 < i" by (cases i) auto
      with h show "\<exists>i j. 0 < i \<and> i < j \<and> j < length (d # ds) \<and> (d # ds) ! i = x \<and> (d # ds) ! j = y" by blast
    qed
    finally show ?thesis .
  qed
qed

text \<open>
  Claim C1. For a word whose trimmed form is not empty, \<open>validateWord\<close> returns true exactly
  when the digits of the key occur in the word's digit sequence in order, not necessarily next
  to each other: the cursor walk of \<open>expectedLoop\<close>, which takes for each digit of the key its
  first occurrence at or after the cursor, decides subsequence containment. This holds for a
  key of any length; for a key of two digits \<open>a\<close> and \<open>b\<close> it says that \<open>a\<close> stands at
  some position of the digit sequence and \<open>b\<close> at a later one.
\<close>

theorem validateWord_iff_subsequence:
  "trim word \<noteq> [] \<Longrightarrow>
   validateWord num word = subseq (split num) (wordDigits word)
   \<and> validateWord [a, b] word =
       (\<exists>i j. i < j \<and> j < length (wordDigits word)
          \<and> wordDigits word ! i = [a] \<and> wordDigits word ! j = [b])"
  using subseq_pair_iff [of "[a]" "[b]" "wordDigits word"]
  by (simp add: validateWord_subseq split_def)

theorem validateWord_iff_subsequence_witness:
  "trim (str ''tan'') \<noteq> []
   \<and> validateWord (str ''12'') (str ''tan'') = subseq (split (str ''12'')) [str ''1'', str ''2'']
   \<and> validateWord (str ''12'') (str ''tan'')"
proof -
  have nb: "trim (str ''tan'') \<noteq> []"
    by (simp add: validator_eval)
  have d: "wordDigits (str ''tan'') = [str ''1'', str ''2'']"
    by (simp add: validator_eval)
  have s: "subseq (split (str ''12'')) [str ''1'', str ''2'']"
    by (simp add: split_def str_def)
  show ?thesis
    using nb s validateWord_iff_subsequence [OF nb, of "str ''12''"]
    by (simp add: d)
qed

text \<open>
  Claim C7. The encoder yields no symbol for the empty word; a word that is empty or consists
  of white space only is valid for every key; in particular the empty word is valid for the
  key 00.
\<close>

theorem blank_word_vacuously_valid:
  "wordToPhonetics [] = []
   \<and> validateWord (str ''00'') []
   \<and> ((\<forall>c\<in>set word. isWhiteSpace c) \<longrightarrow> validateWord num word)"
proof -
  have "wordToPhonetics [] = []"
    by (simp add: wordToPhonetics_def normalizedForm_def toLowerCase_def phoneticsLoop.simps)
  moreover have "validateWord (str ''00'') []"
    by (simp add: validateWord_def trim_def)
  moreover have "(\<forall>c\<in>set word. isWhiteSpace c) \<longrightarrow> validateWord num word"
    by (simp add: validateWord_subseq trim_Nil_iff)
  ultimately show ?thesis by simp
qed

theorem blank_word_vacuously_valid_witness:
  "isWhiteSpace 0x20 \<and> isWhiteSpace 0x9 \<and> validateWord (str ''42'') [0x20, 0x9]"
proof -
  have ws: "\<forall>c\<in>set [0x20, 0x9 :: nat]. isWhiteSpace c"
    by (simp add: isWhiteSpace_def)
  show ?thesis
    using ws blank_word_vacuously_valid [of "[0x20, 0x9]" "str ''42''"]
    by simp
qed

subsection \<open>The encoder as a recursion over the letters\<close>

lemma phoneticsLoop_encode: "phoneticsLoop s i acc = acc @ encode (drop i s)"
proof (induction "length s - i" arbitrary: i acc rule: less_induct)
  case less
  show ?case
  proof (cases "i < length s")
    case False
    then show ?thesis by (simp add: phoneticsLoop.simps [of s i acc])
  next
    case True
    have IH1: "phoneticsLoop s (Suc i) acc' = acc' @ encode (drop (Suc i) s)" for acc'
      using True by (intro less) simp
    show ?thesis
    proof (cases "i + 1 < length s")
      case False
      with True have d: "drop i s = [s ! i]"
        by (metis Cons_nth_drop_Suc Suc_eq_plus1 drop_all linorder_not_less)
      from False have d1: "drop (Suc i) s = []" by simp
      show ?thesis
        using True False
        by (simp add: phoneticsLoop.simps [of s i acc] IH1 d d1 sound_def softens_def str_def)
    next
      case next_in: True
      have IH2: "phoneticsLoop s (Suc (Suc i)) acc' = acc' @ encode (drop (Suc (Suc i)) s)" for acc'
        using True by (intro less) simp
      have d1: "drop (Suc i) s = s ! (Suc i) # drop (Suc (Suc i)) s"
        using next_in by (simp add: Cons_nth_drop_Suc)
      have d: "drop i s = s ! i # s ! (Suc i) # drop (Suc (Suc i)) s"
        using True d1 by (metis Cons_nth_drop_Suc)
      show ?thesis
        using True next_in
        by (auto simp add: phoneticsLoop.simps [of s i acc] IH1 IH2 d d1 sound_def softens_def
            digraph_def str_def Let_def)
    qed
  qed
qed

lemma wordToPhonetics_encode: "wordToPhonetics word = encode (normalizedForm word)"
  by (simp add: wordToPhonetics_def phoneticsLoop_encode)

subsection \<open>The digit table\<close>

lemma phoneticToDigit_table:
  "phoneticToDigit p =
     (if p \<in> {str ''s'', str ''z''} then Some (str ''0'')
      else if p \<in> {str ''t'', str ''d'', str ''th''} then Some (str ''1'')
      else if p = str ''n'' then Some (str ''2'')
      else if p = str ''m'' then Some (str ''3'')
      else if p = str ''r'' then Some (str ''4'')
      else if p = str ''l'' then Some (str ''5'')
      else if p \<in> {str ''j'', str ''sh'', str ''ch''} then Some (str ''6'')
      else if p \<in> {str ''k'', str ''g'', str ''q'', str ''qu''} then Some (str ''7'')
      else if p \<in> {str ''f'', str ''v'', str ''ph''} then Some (str ''8'')
      else if p \<in> {str ''p'', str ''b''} then Some (str ''9'')
      else None)"
  by (simp add: phoneticToDigit_def digitMap_def str_def)

lemma map_the_filter_concat:
  "map the (filter (\<lambda>d. d \<noteq> None) (map f xs)) =
     concat (map (\<lambda>p. case f p of None \<Rightarrow> [] | Some d \<Rightarrow> [d]) xs)"
  by (induction xs) auto

lemma wordDigits_concat:
  "wordDigits word =
     concat (map (\<lambda>p. case phoneticToDigit p of None \<Rightarrow> [] | Some d \<Rightarrow> [d]) (wordToPhonetics word))"
  unfolding wordDigits_def by (rule map_the_filter_concat)

text \<open>
  Claim C6. On every symbol of one or two code units (the symbols the encoder emits),
  \<open>phoneticToDigit\<close> is the table of the major system: s, z give 0; t, d, th give 1; n gives
  2; m gives 3; r gives 4; l gives 5; j, sh, ch give 6; k, g, q, qu give 7; f, v, ph give 8;
  p, b give 9; every other symbol gives none, without an error. The symbols that give none
  are dropped from the digit sequence, the others keep their order.
\<close>

theorem phoneticToDigit_major_system:
  "length p \<le> 2 \<Longrightarrow>
   phoneticToDigit p =
     (if p \<in> {str ''s'', str ''z''} then Some (str ''0'')
      else if p \<in> {str ''t'', str ''d'', str ''th''} then Some (str ''1'')
      else if p = str ''n'' then Some (str ''2'')
      else if p = str ''m'' then Some (str ''3'')
      else if p = str ''r'' then Some (str ''4'')
      else if p = str ''l'' then Some (str ''5'')
      else if p \<in> {str ''j'', str ''sh'', str ''ch''} then Some (str ''6'')
      else if p \<in> {str ''k'', str ''g'', str ''q'', str ''qu''} then Some (str ''7'')
      else if p \<in> {str ''f'', str ''v'', str ''ph''} then Some (str ''8'')
      else if p \<in> {str ''p'', str ''b''} then Some (str ''9'')
      else None)
   \<and> wordDigits word =
       concat (map (\<lambda>s. case phoneticToDigit s of None \<Rightarrow> [] | Some d \<Rightarrow> [d])
         (wordToPhonetics word))"
  using phoneticToDigit_table [of p] wordDigits_concat [of word] by simp

theorem phoneticToDigit_major_system_witness:
  "length (str ''th'') \<le> 2 \<and> phoneticToDigit (str ''th'') = Some (str ''1'')"
  using phoneticToDigit_major_system [of "str ''th''"] by (simp add: str_def)

text \<open>
  Claim C8. The symbols and the digits of a word depend on the word only through its
  lower-cased form with every character outside a to z removed: two words that agree there
  have the same symbol sequence and the same digit sequence.
\<close>

theorem digits_depend_on_letters_only:
  "normalizedForm w1 = normalizedForm w2 \<Longrightarrow>
   wordToPhonetics w1 = wordToPhonetics w2 \<and> wordDigits w1 = wordDigits w2"
  by (simp add: wordToPhonetics_def wordDigits_def)

theorem digits_depend_on_letters_only_witness:
  "normalizedForm (str ''T-ea!'') = normalizedForm (str ''tea'')
   \<and> wordToPhonetics (str ''T-ea!'') = wordToPhonetics (str ''tea'')
   \<and> wordDigits (str ''T-ea!'') = wordDigits (str ''tea'')"
proof -
  have n: "normalizedForm (str ''T-ea!'') = normalizedForm (str ''tea'')"
    by (simp add: normalizedForm_def toLowerCase_def toLowerCaseUnit_def str_def)
  show ?thesis
    using n digits_depend_on_letters_only [OF n] by simp
qed

subsection \<open>Words without letters\<close>

lemma normalizedForm_append: "normalizedForm (u @ v) = normalizedForm u @ normalizedForm v"
  by (simp add: normalizedForm_def toLowerCase_def)

lemma normalizedForm_Cons: "normalizedForm (c # w) = normalizedForm [c] @ normalizedForm w"
  using normalizedForm_append [of "[c]" w] by simp

lemma normalizedForm_no_letter:
  "\<not> isAsciiLetter c \<Longrightarrow> c \<noteq> 0x212A \<Longrightarrow>
   normalizedForm [c] = [] \<or> normalizedForm [c] = [cu CHR ''i'']"
  by (auto simp add: normalizedForm_def toLowerCase_def toLowerCaseUnit_def isAsciiLetter_def)

lemma normalizedForm_only_i:
  "\<forall>c\<in>set w. \<not> isAsciiLetter c \<and> c \<noteq> 0x212A \<Longrightarrow> set (normalizedForm w) \<subseteq> {cu CHR ''i''}"
proof (induction w)
  case Nil
  show ?case by (simp add: normalizedForm_def toLowerCase_def)
next
  case (Cons c w)
  then have "normalizedForm [c] = [] \<or> normalizedForm [c] = [cu CHR ''i'']"
    using normalizedForm_no_letter [of c] by simp
  moreover have "set (normalizedForm w) \<subseteq> {cu CHR ''i''}"
    using Cons by simp
  ultimately show ?case
    by (subst normalizedForm_Cons) auto
qed

lemma encode_only_i: "set s \<subseteq> {cu CHR ''i''} \<Longrightarrow> encode s = map (\<lambda>c. [c]) s"
  by (induction s rule: encode.induct) (auto simp add: sound_def digraph_def)

lemma wordDigits_only_i:
  assumes "set (normalizedForm w) \<subseteq> {cu CHR ''i''}"
  shows "wordDigits w = []"
proof -
  have "wordToPhonetics w = map (\<lambda>c. [c]) (normalizedForm w)"
    using assms by (simp add: wordToPhonetics_encode encode_only_i)
  moreover have "phoneticToDigit [c] = None" if "c \<in> set (normalizedForm w)" for c
    using that assms by (auto simp add: phoneticToDigit_def digitMap_def str_def)
  ultimately show ?thesis
    by (simp add: wordDigits_def filter_empty_conv)
qed

text \<open>
  Claim C10, amended. A word with at least one character that is not white space, and with
  no ASCII letter and no Kelvin sign (U+212A, which \<open>toLowerCase\<close> turns into the letter k),
  is invalid for every key that is not empty, two-digit keys among them: its digit sequence is
  empty, so the first digit of the key is not found.
\<close>

theorem letterless_word_invalid:
  assumes "\<exists>c\<in>set word. \<not> isWhiteSpace c"
    and "\<forall>c\<in>set word. \<not> isAsciiLetter c \<and> c \<noteq> 0x212A"
    and "num \<noteq> []"
  shows "\<not> validateWord num word"
proof -
  have "trim word \<noteq> []"
    using assms(1) by (simp add: trim_Nil_iff)
  moreover have "wordDigits word = []"
    using assms(2) by (intro wordDigits_only_i normalizedForm_only_i)
  moreover have "split num \<noteq> []"
    using assms(3) by (simp add: split_def)
  ultimately show ?thesis
    by (simp add: validateWord_subseq)
qed

theorem letterless_word_invalid_witness:
  "\<not> isWhiteSpace (cu CHR ''1'') \<and> \<not> isAsciiLetter (cu CHR ''1'') \<and> cu CHR ''1'' \<noteq> 0x212A
   \<and> str ''42'' \<noteq> [] \<and> \<not> validateWord (str ''42'') (str ''111'')"
proof -
  have a: "\<exists>c\<in>set (str ''111''). \<not> isWhiteSpace c"
    by (simp add: str_def isWhiteSpace_def)
  have b: "\<forall>c\<in>set (str ''111''). \<not> isAsciiLetter c \<and> c \<noteq> 0x212A"
    by (simp add: str_def isAsciiLetter_def)
  have c: "str ''42'' \<noteq> []"
    by (simp add: str_def)
  show ?thesis
    using letterless_word_invalid [OF a b c] a b c by (simp add: str_def)
qed

theorem kelvin_sign_word_valid:
  "\<not> isWhiteSpace 0x212A \<and> \<not> isAsciiLetter 0x212A \<and> validateWord (str ''77'') [0x212A, 0x212A]"
  by (simp add: validator_eval isAsciiLetter_def)

subsection \<open>The positions a word satisfies\<close>

lemma positionsLoop_filter:
  "positionsLoop word i acc =
     acc @ filter (\<lambda>num. validateWord num word)
             (map (\<lambda>j. padStart (toString j) 2 (str ''0'')) [i..<100])"
proof (induction "100 - i" arbitrary: i acc rule: less_induct)
  case less
  show ?case
  proof (cases "i < 100")
    case False
    then show ?thesis by (simp add: positionsLoop.simps [of word i acc])
  next
    case True
    have IH: "positionsLoop word (Suc i) acc' =
        acc' @ filter (\<lambda>num. validateWord num word)
                 (map (\<lambda>j. padStart (toString j) 2 (str ''0'')) [Suc i..<100])" for acc'
      using True by (intro less) simp
    show ?thesis
      using True by (simp add: positionsLoop.simps [of word i acc] IH upt_conv_Cons Let_def)
  qed
qed

lemma padded_key: "i < 100 \<Longrightarrow> padStart (toString i) 2 (str ''0'') = twoDigitKey (i div 10) (i mod 10)"
proof (cases "i < 10")
  case True
  then show ?thesis
    by (simp add: toString.simps [of i] padStart_def twoDigitKey_def str_def)
next
  case False
  assume "i < 100"
  with False have "i div 10 < 10" by simp
  with False show ?thesis
    by (simp add: toString.simps [of i] toString.simps [of "i div 10"] padStart_def twoDigitKey_def)
qed

lemma set_getValidPositionsForWord:
  "set (getValidPositionsForWord word) =
     (if trim word = [] then {}
      else {k. (\<exists>i<100. k = twoDigitKey (i div 10) (i mod 10)) \<and> validateWord k word})"
proof -
  have "set (map (\<lambda>j. padStart (toString j) 2 (str ''0'')) [0..<100]) =
      {k. \<exists>i<100. k = twoDigitKey (i div 10) (i mod 10)}"
    by (auto simp add: padded_key image_iff)
  then show ?thesis
    by (auto simp add: getValidPositionsForWord_def positionsLoop_filter simp del: set_map)
qed

lemma twoDigitKey_in_range:
  "a < 10 \<Longrightarrow> b < 10 \<Longrightarrow> \<exists>i<100. twoDigitKey a b = twoDigitKey (i div 10) (i mod 10)"
  by (rule exI [of _ "10 * a + b"]) simp

lemma getValidPositionsForWord_filter:
  "getValidPositionsForWord word =
     (if trim word = [] then []
      else filter (\<lambda>k. validateWord k word)
             (map (\<lambda>i. twoDigitKey (i div 10) (i mod 10)) [0..<100]))"
proof -
  have "map (\<lambda>j. padStart (toString j) 2 (str ''0'')) [0..<100] =
      map (\<lambda>i. twoDigitKey (i div 10) (i mod 10)) [0..<100]"
    by (rule map_cong) (simp_all add: padded_key)
  then show ?thesis
    unfolding getValidPositionsForWord_def positionsLoop_filter by (simp only: append_Nil)
qed

text \<open>
  Claim C3, amended. For a word whose trimmed form is not empty,
  \<open>getValidPositionsForWord\<close> returns exactly the keys from 00 to 99 that \<open>validateWord\<close>
  accepts, each once and in ascending order: a two-digit key is in the result if and only if
  \<open>validateWord\<close> accepts it, and nothing else is. For an empty or white-space-only word
  \<open>getValidPositionsForWord\<close> returns the empty list, although \<open>validateWord\<close> accepts
  every key.
\<close>

theorem validPositions_exactly_valid_keys:
  "getValidPositionsForWord word =
     (if trim word = [] then []
      else filter (\<lambda>k. validateWord k word)
             (map (\<lambda>i. twoDigitKey (i div 10) (i mod 10)) [0..<100]))
   \<and> (trim word = [] \<longrightarrow> validateWord k word)
   \<and> (trim word \<noteq> [] \<longrightarrow>
        set (getValidPositionsForWord word) =
          {key. (\<exists>a b. a < 10 \<and> b < 10 \<and> key = twoDigitKey a b) \<and> validateWord key word})
   \<and> (a < 10 \<longrightarrow> b < 10 \<longrightarrow>
        (twoDigitKey a b \<in> set (getValidPositionsForWord word)) =
          (trim word \<noteq> [] \<and> validateWord (twoDigitKey a b) word))"
proof (intro conjI impI)
  show "getValidPositionsForWord word =
     (if trim word = [] then []
      else filter (\<lambda>k. validateWord k word)
             (map (\<lambda>i. twoDigitKey (i div 10) (i mod 10)) [0..<100]))"
    by (rule getValidPositionsForWord_filter)
next
  assume "trim word = []"
  then show "validateWord k word"
    by (simp add: validateWord_subseq)
next
  have keys: "(\<exists>i<100. key = twoDigitKey (i div 10) (i mod 10)) \<longleftrightarrow>
      (\<exists>a b. a < 10 \<and> b < 10 \<and> key = twoDigitKey a b)" for key
  proof
    assume "\<exists>i<100. key = twoDigitKey (i div 10) (i mod 10)"
    then obtain i where "i < 100" "key = twoDigitKey (i div 10) (i mod 10)" by blast
    then have "i div 10 < 10 \<and> i mod 10 < 10 \<and> key = twoDigitKey (i div 10) (i mod 10)" by simp
    then show "\<exists>a b. a < 10 \<and> b < 10 \<and> key = twoDigitKey a b" by blast
  next
    assume "\<exists>a b. a < 10 \<and> b < 10 \<and> key = twoDigitKey a b"
    then obtain a b where "a < 10" "b < 10" "key = twoDigitKey a b" by blast
    with twoDigitKey_in_range [of a b]
    show "\<exists>i<100. key = twoDigitKey (i div 10) (i mod 10)" by auto
  qed
  assume "trim word \<noteq> []"
  then show "set (getValidPositionsForWord word) =
      {key. (\<exists>a b. a < 10 \<and> b < 10 \<and> key = twoDigitKey a b) \<and> validateWord key word}"
    by (simp add: set_getValidPositionsForWord keys)
next
  assume "a < 10" "b < 10"
  then show "(twoDigitKey a b \<in> set (getValidPositionsForWord word)) =
      (trim word \<noteq> [] \<and> validateWord (twoDigitKey a b) word)"
    using twoDigitKey_in_range [of a b] by (auto simp add: set_getValidPositionsForWord)
qed

theorem validPositions_exactly_valid_keys_witness:
  "trim (str ''tan'') \<noteq> [] \<and> validateWord (twoDigitKey 1 2) (str ''tan'')
   \<and> twoDigitKey 1 2 \<in> set (getValidPositionsForWord (str ''tan''))
   \<and> \<not> validateWord (twoDigitKey 2 1) (str ''tan'')
   \<and> twoDigitKey 2 1 \<notin> set (getValidPositionsForWord (str ''tan''))
   \<and> trim [0x20] = [] \<and> getValidPositionsForWord [0x20] = [] \<and> validateWord (str ''42'') [0x20]"
proof -
  have nb: "trim (str ''tan'') \<noteq> []"
    by (simp add: validator_eval)
  have v: "validateWord (twoDigitKey 1 2) (str ''tan'') \<and> \<not> validateWord (twoDigitKey 2 1) (str ''tan'')"
    by (simp add: validator_eval twoDigitKey_def)
  have b: "trim [0x20] = []"
    by (simp add: trim_def isWhiteSpace_def)
  have m12: "(twoDigitKey 1 2 \<in> set (getValidPositionsForWord (str ''tan''))) =
      (trim (str ''tan'') \<noteq> [] \<and> validateWord (twoDigitKey 1 2) (str ''tan''))"
    using validPositions_exactly_valid_keys [of "str ''tan''" "str ''00''" 1 2,
        THEN conjunct2, THEN conjunct2, THEN conjunct2]
    by simp
  have m21: "(twoDigitKey 2 1 \<in> set (getValidPositionsForWord (str ''tan''))) =
      (trim (str ''tan'') \<noteq> [] \<and> validateWord (twoDigitKey 2 1) (str ''tan''))"
    using validPositions_exactly_valid_keys [of "str ''tan''" "str ''00''" 2 1,
        THEN conjunct2, THEN conjunct2, THEN conjunct2]
    by simp
  have l: "getValidPositionsForWord [0x20] = []"
    using validPositions_exactly_valid_keys [of "[0x20]" "str ''42''" 0 0, THEN conjunct1] b
    by simp
  have vb: "validateWord (str ''42'') [0x20]"
    using validPositions_exactly_valid_keys [of "[0x20]" "str ''42''" 0 0,
        THEN conjunct2, THEN conjunct1] b
    by simp
  show ?thesis
    using nb v b m12 m21 l vb by simp
qed

theorem blank_word_has_no_positions:
  "\<not> ((str ''00'' \<in> set (getValidPositionsForWord [])) = validateWord (str ''00'') [])"
  by (simp add: getValidPositionsForWord_def validateWord_def trim_def)

lemma short_digits_no_positions:
  assumes "length (wordDigits word) < 2"
  shows "getValidPositionsForWord word = []"
proof -
  have "\<not> subseq (split (twoDigitKey a b)) (wordDigits word)" for a b
    using assms by (intro not_subseq_length) (simp add: split_def twoDigitKey_def)
  then have "set (getValidPositionsForWord word) = {}"
    by (auto simp add: set_getValidPositionsForWord validateWord_subseq)
  then show ?thesis by simp
qed

lemma wordDigits_tea: "wordDigits (str ''tea'') = [str ''1'']"
  by (simp add: validator_eval)

lemma positions_tea: "getValidPositionsForWord (str ''tea'') = []"
  by (rule short_digits_no_positions) (simp add: wordDigits_tea)

text \<open>
  Claim C5, amended. The word tea encodes to the digit sequence 1 (t gives 1, the vowels give
  nothing), and no key at all is a valid position for it: a key has two digits, and two digits
  are not a subsequence of one.
\<close>

theorem tea_has_no_valid_position:
  "wordDigits (str ''tea'') = [str ''1''] \<and> getValidPositionsForWord (str ''tea'') = []"
  using wordDigits_tea positions_tea by simp

theorem tea_does_not_satisfy_01:
  "\<not> validateWord (str ''01'') (str ''tea'')
   \<and> str ''01'' \<notin> set (getValidPositionsForWord (str ''tea''))"
proof -
  have "\<not> validateWord (str ''01'') (str ''tea'')"
    by (simp add: validator_eval)
  then show ?thesis by (simp add: positions_tea)
qed

subsection \<open>Inserting a consonant\<close>

lemma encode_second_letter:
  assumes "digraph c d"
  shows "encode (d # rest) = [d] # encode rest"
proof -
  from assms have d: "d = cu CHR ''h'' \<or> d = cu CHR ''u''"
    by (auto simp add: digraph_def)
  then have "sound d nx = [d]" "\<not> digraph d e" for nx e
    by (auto simp add: sound_def digraph_def)
  then show ?thesis by (cases rest) simp_all
qed

lemma no_digit_second_letter:
  assumes "digraph c d"
  shows "phoneticToDigit [d] = None"
  using assms by (auto simp add: digraph_def phoneticToDigit_def digitMap_def str_def)

lemma digitsOf_encode_Cons:
  "digitsOf (encode (a # t)) = letterDigits a (nextLetter t) @ digitsOf (encode t)"
proof (cases t)
  case Nil
  then show ?thesis
    by (simp add: letterDigits_def letterSymbol_def nextLetter_def)
next
  case (Cons b rest)
  show ?thesis
  proof (cases "digraph a b")
    case True
    then show ?thesis
      using encode_second_letter [OF True, of rest] no_digit_second_letter [OF True]
      by (simp add: Cons letterDigits_def letterSymbol_def nextLetter_def)
  next
    case False
    then show ?thesis
      by (simp add: Cons letterDigits_def letterSymbol_def nextLetter_def)
  qed
qed

lemma digitsOf_encode_append:
  "s \<noteq> [] \<Longrightarrow>
   digitsOf (encode (s @ t)) =
     digitsBeforeLast s @ letterDigits (last s) (nextLetter t) @ digitsOf (encode t)"
proof (induction s rule: digitsBeforeLast.induct)
  case 1
  then show ?case by simp
next
  case (2 a)
  show ?case
    using digitsOf_encode_Cons [of a t] by simp
next
  case (3 a b rest)
  have "digitsOf (encode ((a # b # rest) @ t)) =
      letterDigits a (Some b) @ digitsOf (encode ((b # rest) @ t))"
    using digitsOf_encode_Cons [of a "b # rest @ t"] by (simp add: nextLetter_def)
  then show ?case
    using "3.IH" by simp
qed

lemma consonant_lowerOf:
  assumes "isConsonant x"
  shows "lowerOf x \<in> set (str ''bcdfghjklmnpqrstvwxyz'')" and "normalizedForm [x] = [lowerOf x]"
  using assms
  by (auto simp add: isConsonant_def lowerOf_def normalizedForm_def toLowerCase_def
      toLowerCaseUnit_def str_def)

lemma consonant_not_whitespace: "isConsonant x \<Longrightarrow> \<not> isWhiteSpace x"
  by (auto simp add: isConsonant_def isWhiteSpace_def str_def)

lemma wordDigits_digitsOf: "wordDigits word = digitsOf (encode (normalizedForm word))"
  by (simp add: wordDigits_concat wordToPhonetics_encode)

lemma wordDigits_insert_consonant:
  assumes c: "isConsonant x"
    and k: "keepsDigitBefore (normalizedForm u) (lowerOf x) (normalizedForm v)"
  shows "subseq (wordDigits (u @ v)) (wordDigits (u @ x # v))"
proof -
  let ?s = "normalizedForm u" and ?t = "normalizedForm v" and ?x = "lowerOf x"
  have n: "normalizedForm (u @ x # v) = ?s @ ?x # ?t"
    using normalizedForm_append [of u "x # v"] normalizedForm_Cons [of x v] consonant_lowerOf(2) [OF c]
    by simp
  have x: "digitsOf (encode (?x # ?t)) = letterDigits ?x (nextLetter ?t) @ digitsOf (encode ?t)"
    by (rule digitsOf_encode_Cons)
  show ?thesis
  proof (cases "?s = []")
    case True
    have old: "wordDigits (u @ v) = digitsOf (encode ?t)"
      using True by (simp add: wordDigits_digitsOf normalizedForm_append)
    have new: "wordDigits (u @ x # v) = letterDigits ?x (nextLetter ?t) @ digitsOf (encode ?t)"
      using True x by (simp add: wordDigits_digitsOf n)
    show ?thesis
      unfolding old new by (rule subseq_drop_many) simp
  next
    case False
    have old: "wordDigits (u @ v) =
        digitsBeforeLast ?s @ letterDigits (last ?s) (nextLetter ?t) @ digitsOf (encode ?t)"
      using digitsOf_encode_append [OF False, of ?t]
      by (simp only: wordDigits_digitsOf normalizedForm_append)
    have new: "wordDigits (u @ x # v) =
        digitsBeforeLast ?s @ (letterDigits (last ?s) (Some ?x) @ letterDigits ?x (nextLetter ?t))
          @ digitsOf (encode ?t)"
      using digitsOf_encode_append [OF False, of "?x # ?t"] x
      by (simp add: wordDigits_digitsOf n nextLetter_def)
    have "subseq (letterDigits (last ?s) (nextLetter ?t))
        (letterDigits (last ?s) (Some ?x) @ letterDigits ?x (nextLetter ?t))"
      using k False by (simp add: keepsDigitBefore_def)
    then show ?thesis
      unfolding old new by (intro list_emb_append_mono) simp_all
  qed
qed

lemma letterSymbol_context:
  assumes "a \<noteq> cu CHR ''t''" and "a \<noteq> cu CHR ''q''"
    and "\<not> (a \<in> set (str ''csp'') \<and> (n1 = Some (cu CHR ''h'') \<or> n2 = Some (cu CHR ''h'')))"
    and "\<not> (a \<in> set (str ''cg'') \<and> (softens n1 \<or> softens n2))"
  shows "letterSymbol a n1 = letterSymbol a n2"
  using assms
  by (cases n1; cases n2)
    (auto simp add: letterSymbol_def digraph_def sound_def str_def)

lemma letterDigits_t: "letterDigits (cu CHR ''t'') n = [str ''1'']"
  by (cases n)
    (simp_all add: letterDigits_def letterSymbol_def digraph_def sound_def str_def
      phoneticToDigit_def digitMap_def)

lemma letterDigits_q: "letterDigits (cu CHR ''q'') n = [str ''7'']"
  by (cases n)
    (simp_all add: letterDigits_def letterSymbol_def digraph_def sound_def str_def
      phoneticToDigit_def digitMap_def)

lemma letterDigits_context:
  assumes "\<not> (a \<in> set (str ''csp'') \<and> (n1 = Some (cu CHR ''h'') \<or> n2 = Some (cu CHR ''h'')))"
    and "\<not> (a \<in> set (str ''cg'') \<and> (softens n1 \<or> softens n2))"
  shows "letterDigits a n1 = letterDigits a n2"
proof (cases "a = cu CHR ''t'' \<or> a = cu CHR ''q''")
  case True
  then show ?thesis
    using letterDigits_t letterDigits_q by auto
next
  case False
  then have "letterSymbol a n1 = letterSymbol a n2"
    using assms by (intro letterSymbol_context) simp_all
  then show ?thesis
    by (simp only: letterDigits_def)
qed

lemma consonant_softens:
  assumes "isConsonant x"
  shows "softens (Some (lowerOf x)) \<longleftrightarrow> lowerOf x = cu CHR ''y''"
  using consonant_lowerOf(1) [OF assms] by (auto simp add: softens_def str_def)

lemma keepsDigitBefore_unless:
  assumes c: "isConsonant x"
    and h: "\<not> (last s \<in> set (str ''csp'')
              \<and> (nextLetter t = Some (cu CHR ''h'') \<or> lowerOf x = cu CHR ''h''))"
    and e: "\<not> (last s \<in> set (str ''cg'')
              \<and> (softens (nextLetter t) \<or> lowerOf x = cu CHR ''y''))"
  shows "keepsDigitBefore s (lowerOf x) t"
proof -
  have "letterDigits (last s) (nextLetter t) = letterDigits (last s) (Some (lowerOf x))"
    using h e consonant_softens [OF c] by (intro letterDigits_context) simp_all
  then show ?thesis
    by (simp add: keepsDigitBefore_def subseq_rev_drop_many)
qed

text \<open>
  Claim C2, amended. Let the word \<open>u @ v\<close> have a trimmed form that is not empty and be
  valid for a key, and let \<open>x\<close> be a consonant letter, small or capital. Inserting \<open>x\<close>
  between \<open>u\<close> and \<open>v\<close> keeps the word valid whenever the digit of the letter before the
  insertion stays in place (\<open>keepsDigitBefore\<close>). That condition can fail only when the letter
  before is c, s or p and the next letter or the inserted one is h, or when the letter before
  is c or g and the next letter is e, i or y or the inserted one is y.
\<close>

theorem consonant_insertion_keeps_valid:
  assumes "validateWord num (u @ v)"
    and "trim (u @ v) \<noteq> []"
    and "isConsonant x"
  shows "(keepsDigitBefore (normalizedForm u) (lowerOf x) (normalizedForm v)
            \<longrightarrow> validateWord num (u @ x # v))
         \<and> (keepsDigitBefore (normalizedForm u) (lowerOf x) (normalizedForm v)
            \<or> last (normalizedForm u) \<in> set (str ''csp'')
               \<and> (nextLetter (normalizedForm v) = Some (cu CHR ''h'') \<or> lowerOf x = cu CHR ''h'')
            \<or> last (normalizedForm u) \<in> set (str ''cg'')
               \<and> (softens (nextLetter (normalizedForm v)) \<or> lowerOf x = cu CHR ''y''))"
proof (intro conjI impI)
  assume k: "keepsDigitBefore (normalizedForm u) (lowerOf x) (normalizedForm v)"
  have "subseq (split num) (wordDigits (u @ v))"
    using assms(1,2) by (simp add: validateWord_subseq)
  then have "subseq (split num) (wordDigits (u @ x # v))"
    using wordDigits_insert_consonant [OF assms(3) k] by (rule list_emb_trans [rotated 1]) simp
  then show "validateWord num (u @ x # v)"
    by (simp add: validateWord_subseq)
next
  show "keepsDigitBefore (normalizedForm u) (lowerOf x) (normalizedForm v)
      \<or> last (normalizedForm u) \<in> set (str ''csp'')
         \<and> (nextLetter (normalizedForm v) = Some (cu CHR ''h'') \<or> lowerOf x = cu CHR ''h'')
      \<or> last (normalizedForm u) \<in> set (str ''cg'')
         \<and> (softens (nextLetter (normalizedForm v)) \<or> lowerOf x = cu CHR ''y'')"
    using keepsDigitBefore_unless [OF assms(3), of "normalizedForm u" "normalizedForm v"] by blast
qed

theorem consonant_insertion_keeps_valid_witness:
  "validateWord (str ''71'') (str ''c'' @ str ''at'')
   \<and> trim (str ''c'' @ str ''at'') \<noteq> []
   \<and> isConsonant (cu CHR ''S'')
   \<and> keepsDigitBefore (normalizedForm (str ''c'')) (lowerOf (cu CHR ''S'')) (normalizedForm (str ''at''))
   \<and> validateWord (str ''71'') (str ''c'' @ cu CHR ''S'' # str ''at'')"
proof -
  have a: "validateWord (str ''71'') (str ''c'' @ str ''at'')"
    by (simp add: validator_eval)
  have b: "trim (str ''c'' @ str ''at'') \<noteq> []"
    by (simp add: validator_eval)
  have c: "isConsonant (cu CHR ''S'')"
    by (simp add: isConsonant_def str_def)
  have k: "keepsDigitBefore (normalizedForm (str ''c'')) (lowerOf (cu CHR ''S'')) (normalizedForm (str ''at''))"
    by (simp add: keepsDigitBefore_def letterDigits_def letterSymbol_def nextLetter_def
        digraph_def sound_def softens_def lowerOf_def normalizedForm_def toLowerCase_def
        toLowerCaseUnit_def phoneticToDigit_def digitMap_def str_def)
  show ?thesis
    using a b c k consonant_insertion_keeps_valid [OF a b c, THEN conjunct1] by simp
qed

theorem consonant_insertion_breaks_validity:
  "validateWord (str ''02'') (str ''cent'') \<and> \<not> validateWord (str ''02'') (str ''crent'')
   \<and> validateWord (str ''71'') (str ''cat'') \<and> \<not> validateWord (str ''71'') (str ''chat'')
   \<and> \<not> validateWord (str ''71'') (str ''cyat'')
   \<and> validateWord (str ''02'') (str ''sun'') \<and> \<not> validateWord (str ''02'') (str ''shun'')
   \<and> validateWord (str ''92'') (str ''pan'') \<and> \<not> validateWord (str ''92'') (str ''phan'')
   \<and> validateWord (str ''70'') (str ''gas'') \<and> \<not> validateWord (str ''70'') (str ''gyas'')
   \<and> validateWord (str ''62'') (str ''shin'') \<and> \<not> validateWord (str ''62'') (str ''srhin'')
   \<and> validateWord (str ''82'') (str ''phone'') \<and> \<not> validateWord (str ''82'') (str ''prhone'')
   \<and> validateWord (str ''63'') (str ''gem'') \<and> \<not> validateWord (str ''63'') (str ''grem'')
   \<and> validateWord (str ''99'') (str '' '') \<and> \<not> validateWord (str ''99'') (str '' b'')"
  by (simp add: validator_eval)

subsection \<open>Homonym groups and the conflict map\<close>

lemma set_fold_setAdd: "set (fold setAdd xs s) = set xs \<union> set s"
  by (induction xs arbitrary: s) (auto simp add: setAdd_def)

lemma set_newSet: "set (newSet xs) = set xs"
  by (simp add: newSet_def set_fold_setAdd)

lemma set_fold_numbers:
  "set (fold (\<lambda>word s. fold setAdd (f word) s) ws s0) = set s0 \<union> (\<Union>w\<in>set ws. set (f w))"
  by (induction ws arbitrary: s0) (auto simp add: set_fold_setAdd)

lemma set_groupNumbers:
  "set (groupNumbers wordToNumbers g) = (\<Union>w\<in>set (words g). set (conflictList wordToNumbers w))"
  by (simp add: groupNumbers_def set_fold_numbers conflictList_def)

lemma conflictList_recordNumber:
  "set (conflictList (recordNumber (n, w) m) w') =
     set (conflictList m w') \<union> (if w' = w then {n} else {})"
  by (auto simp add: recordNumber_def conflictList_def Let_def split: option.splits)

lemma conflictList_fold_recordNumber:
  "set (conflictList (fold recordNumber fw m) w) =
     set (conflictList m w) \<union> {n. (n, w) \<in> set fw}"
proof (induction fw arbitrary: m)
  case Nil
  show ?case by simp
next
  case (Cons e fw)
  obtain n w' where e: "e = (n, w')" by (cases e)
  show ?case
    by (auto simp add: Cons.IH e conflictList_recordNumber)
qed

lemma wordToNumbers_set:
  "set (conflictList (fold recordNumber fw Map.empty) w) = {n. (n, w) \<in> set fw}"
  by (simp add: conflictList_fold_recordNumber) (simp add: conflictList_def)

lemma map_fst_mapPush:
  "map fst (mapPush k v m) = (if k \<in> set (map fst m) then map fst m else map fst m @ [k])"
  by (auto simp add: mapPush_def Let_def split_def comp_def)

lemma in_mapPush:
  assumes "(c, ws) \<in> set (mapPush k v m)"
  shows "c \<noteq> k \<and> (c, ws) \<in> set m
         \<or> c = k \<and> (\<exists>ws0. ws = ws0 @ [v] \<and> ((k, ws0) \<in> set m \<or> ws0 = []))"
  using assms by (auto simp add: mapPush_def Let_def split: if_splits)

lemma codedBy_collectWord:
  assumes "codedBy metaphone m"
  shows "codedBy metaphone (collectWord metaphone cs word m)"
proof -
  have "codedBy metaphone (mapPush (metaphone v) v m)" for v
    unfolding codedBy_def
  proof (intro conjI allI impI)
    show "distinct (map fst (mapPush (metaphone v) v m))"
      using assms by (simp add: map_fst_mapPush codedBy_def)
  next
    fix c ws w
    assume e: "(c, ws) \<in> set (mapPush (metaphone v) v m)" and w: "w \<in> set ws"
    from in_mapPush [OF e] show "metaphone w = c"
    proof
      assume "c \<noteq> metaphone v \<and> (c, ws) \<in> set m"
      with assms w show ?thesis unfolding codedBy_def by blast
    next
      assume "c = metaphone v \<and> (\<exists>ws0. ws = ws0 @ [v] \<and> ((metaphone v, ws0) \<in> set m \<or> ws0 = []))"
      then obtain ws0 where c: "c = metaphone v" and ws: "ws = ws0 @ [v]"
        and m: "(metaphone v, ws0) \<in> set m \<or> ws0 = []" by blast
      from w ws have "w = v \<or> w \<in> set ws0" by auto
      then show ?thesis
      proof
        assume "w = v" with c show ?thesis by simp
      next
        assume w0: "w \<in> set ws0"
        with m have "(metaphone v, ws0) \<in> set m" by auto
        with assms w0 c show ?thesis unfolding codedBy_def by blast
      qed
    qed
  qed
  with assms show ?thesis
    by (simp add: collectWord_def Let_def)
qed

lemma codedBy_fold:
  "codedBy metaphone m \<Longrightarrow> codedBy metaphone (fold (collectWord metaphone cs) ws m)"
  by (induction ws arbitrary: m) (simp_all add: codedBy_collectWord)

lemma groupHomonyms_codes:
  "distinct (map phoneticCode (groupHomonyms metaphone ws cs))"
  "g \<in> set (groupHomonyms metaphone ws cs) \<Longrightarrow> w \<in> set (words g) \<Longrightarrow> metaphone w = phoneticCode g"
proof -
  let ?m = "fold (collectWord metaphone cs) ws []"
  have c: "codedBy metaphone ?m"
    by (rule codedBy_fold) (simp add: codedBy_def)
  have "map phoneticCode (groupHomonyms metaphone ws cs) =
      map fst (filter (\<lambda>(code, groupWords). length groupWords > 1) ?m)"
    by (simp add: groupHomonyms_def Let_def split_def comp_def)
  then show "distinct (map phoneticCode (groupHomonyms metaphone ws cs))"
    using c by (simp add: codedBy_def distinct_map_filter)
  show "metaphone w = phoneticCode g"
    if "g \<in> set (groupHomonyms metaphone ws cs)" and "w \<in> set (words g)"
    using that c unfolding codedBy_def by (auto simp add: groupHomonyms_def Let_def set_newSet)
qed

lemma fold_set_conflicts:
  "fold (\<lambda>num c. c(num \<mapsto> f num)) nl c a = (if a \<in> set nl then Some (f a) else c a)"
  by (induction nl arbitrary: c) auto

lemma recordGroup_apply:
  "recordGroup wordToNumbers g c a =
     (if 1 < length (groupNumbers wordToNumbers g) \<and> a \<in> set (groupNumbers wordToNumbers g)
      then Some (filter (\<lambda>n. n \<noteq> a) (groupNumbers wordToNumbers g))
      else c a)"
  by (simp add: recordGroup_def groupNumbers_def Let_def fold_set_conflicts)

lemma fold_recordGroup_Some:
  assumes "fold (recordGroup wordToNumbers) gs c a = Some l"
  shows "c a = Some l
         \<or> (\<exists>g\<in>set gs. 1 < length (groupNumbers wordToNumbers g)
               \<and> a \<in> set (groupNumbers wordToNumbers g)
               \<and> l = filter (\<lambda>n. n \<noteq> a) (groupNumbers wordToNumbers g))"
  using assms
proof (induction gs arbitrary: c)
  case Nil
  then show ?case by simp
next
  case (Cons g gs)
  from Cons.IH [of "recordGroup wordToNumbers g c"] Cons.prems
  show ?case
    by (auto simp add: recordGroup_apply split: if_splits)
qed

lemma fold_recordGroup_member:
  assumes "g \<in> set gs"
    and "1 < length (groupNumbers wordToNumbers g)"
    and "a \<in> set (groupNumbers wordToNumbers g)"
  shows "\<exists>g'\<in>set gs. 1 < length (groupNumbers wordToNumbers g')
           \<and> a \<in> set (groupNumbers wordToNumbers g')
           \<and> fold (recordGroup wordToNumbers) gs c a =
               Some (filter (\<lambda>n. n \<noteq> a) (groupNumbers wordToNumbers g'))"
  using assms
proof (induction gs arbitrary: c rule: rev_induct)
  case Nil
  then show ?case by simp
next
  case (snoc h gs)
  show ?case
  proof (cases "1 < length (groupNumbers wordToNumbers h) \<and> a \<in> set (groupNumbers wordToNumbers h)")
    case True
    then show ?thesis
      by (auto simp add: recordGroup_apply intro!: bexI [of _ h])
  next
    case False
    with snoc.prems have "g \<in> set gs" by auto
    from snoc.IH [OF this snoc.prems(2,3), of c] False show ?thesis
      by (auto simp add: recordGroup_apply)
  qed
qed

lemma number_in_one_group:
  assumes d: "distinct (map fst fw)"
    and g: "g \<in> set (groupHomonyms metaphone ws cs)"
    and g': "g' \<in> set (groupHomonyms metaphone ws cs)"
    and a: "a \<in> set (groupNumbers (fold recordNumber fw Map.empty) g)"
    and a': "a \<in> set (groupNumbers (fold recordNumber fw Map.empty) g')"
  shows "g = g'"
proof -
  from a obtain w where w: "w \<in> set (words g)" "(a, w) \<in> set fw"
    by (auto simp add: set_groupNumbers wordToNumbers_set)
  from a' obtain w' where w': "w' \<in> set (words g')" "(a, w') \<in> set fw"
    by (auto simp add: set_groupNumbers wordToNumbers_set)
  have "w = w'"
    using d w(2) w'(2) by (rule eq_key_imp_eq_value)
  then have "phoneticCode g = phoneticCode g'"
    using groupHomonyms_codes(2) [OF g w(1)] groupHomonyms_codes(2) [OF g' w'(1)] by simp
  moreover have "inj_on phoneticCode (set (groupHomonyms metaphone ws cs))"
    using groupHomonyms_codes(1) [of metaphone ws cs] by (simp add: distinct_map)
  ultimately show ?thesis
    using g g' by (simp add: inj_on_eq_iff)
qed

lemma conflicts_symmetric_core:
  assumes uniq: "\<And>g g' x. g \<in> set gs \<Longrightarrow> g' \<in> set gs \<Longrightarrow> x \<in> set (groupNumbers m g)
      \<Longrightarrow> x \<in> set (groupNumbers m g') \<Longrightarrow> g = g'"
    and b: "b \<in> set (conflictList (fold (recordGroup m) gs Map.empty) a)"
  shows "a \<in> set (conflictList (fold (recordGroup m) gs Map.empty) b) \<and> a \<noteq> b"
proof -
  from b obtain l where l: "fold (recordGroup m) gs Map.empty a = Some l" and bl: "b \<in> set l"
    by (cases "fold (recordGroup m) gs Map.empty a") (auto simp add: conflictList_def)
  from fold_recordGroup_Some [OF l] obtain g where g: "g \<in> set gs"
    and len: "1 < length (groupNumbers m g)" and ag: "a \<in> set (groupNumbers m g)"
    and lg: "l = filter (\<lambda>n. n \<noteq> a) (groupNumbers m g)"
    by auto
  from bl lg have bg: "b \<in> set (groupNumbers m g)" and ne: "b \<noteq> a" by auto
  from fold_recordGroup_member [OF g len bg, of Map.empty] obtain g' where g': "g' \<in> set gs"
    and bg': "b \<in> set (groupNumbers m g')"
    and r: "fold (recordGroup m) gs Map.empty b = Some (filter (\<lambda>n. n \<noteq> b) (groupNumbers m g'))"
    by auto
  have "g = g'" using uniq [OF g g' bg bg'] .
  with r ag ne show ?thesis
    by (auto simp add: conflictList_def)
qed

lemma filledWords_distinct:
  assumes "distinct (map fst wordTable)"
  shows "distinct (map fst (map (\<lambda>(num, word). (num, f word)) (filter P wordTable)))"
proof -
  have "map fst (map (\<lambda>(num, word). (num, f word)) (filter P wordTable)) = map fst (filter P wordTable)"
    by (simp add: split_def comp_def)
  with assms show ?thesis
    by (simp only: distinct_map_filter)
qed

lemma homonymConflicts_symmetric:
  assumes "distinct (map fst wordTable)"
    and "b \<in> set (conflictList (homonymConflicts metaphone wordTable) a)"
  shows "a \<in> set (conflictList (homonymConflicts metaphone wordTable) b) \<and> a \<noteq> b"
proof -
  let ?fw = "map (\<lambda>(num, word). (num, toLowerCase (trim word)))
      (filter (\<lambda>(num, word). word \<noteq> [] \<and> trim word \<noteq> []) wordTable)"
  let ?m = "fold recordNumber ?fw Map.empty"
  let ?gs = "groupHomonyms metaphone (map snd ?fw) False"
  have d: "distinct (map fst ?fw)"
    using assms(1) by (rule filledWords_distinct)
  show ?thesis
  proof (cases "?fw = []")
    case True
    with assms(2) show ?thesis
      by (simp add: homonymConflicts_def conflictList_def)
  next
    case False
    then have hc: "homonymConflicts metaphone wordTable = fold (recordGroup ?m) ?gs Map.empty"
      by (simp add: homonymConflicts_def Let_def)
    show ?thesis
      unfolding hc
    proof (rule conflicts_symmetric_core)
      show "b \<in> set (conflictList (fold (recordGroup ?m) ?gs Map.empty) a)"
        using assms(2) unfolding hc .
    next
      fix g g' x
      assume "g \<in> set ?gs" "g' \<in> set ?gs" "x \<in> set (groupNumbers ?m g)" "x \<in> set (groupNumbers ?m g')"
      with d show "g = g'" by (rule number_in_one_group)
    qed
  qed
qed

lemmas homonym_eval =
  homonymConflicts_def recordNumber_def recordGroup_def groupHomonyms_def collectWord_def
  mapPush_def newSet_def setAdd_def trim_def isWhiteSpace_def toLowerCase_def toLowerCaseUnit_def
  str_def conflictList_def Let_def

text \<open>
  Claim C9. For every table of words (an object, so each key occurs once), the conflict map
  is symmetric and irreflexive: \<open>b\<close> is in the conflict list of \<open>a\<close> exactly when \<open>a\<close>
  is in the conflict list of \<open>b\<close>, and no key is in its own conflict list.
\<close>

theorem conflict_map_symmetric_irreflexive:
  assumes "distinct (map fst wordTable)"
  shows "(b \<in> set (conflictList (homonymConflicts metaphone wordTable) a)) =
           (a \<in> set (conflictList (homonymConflicts metaphone wordTable) b))
         \<and> a \<notin> set (conflictList (homonymConflicts metaphone wordTable) a)"
  using homonymConflicts_symmetric [OF assms, of b metaphone a]
    homonymConflicts_symmetric [OF assms, of a metaphone b]
    homonymConflicts_symmetric [OF assms, of a metaphone a]
  by blast

theorem conflict_map_symmetric_irreflexive_witness:
  "distinct (map fst [(str ''00'', str ''there''), (str ''01'', str ''their'')])
   \<and> str ''01'' \<in> set (conflictList
         (homonymConflicts (take 2) [(str ''00'', str ''there''), (str ''01'', str ''their'')]) (str ''00''))
   \<and> str ''00'' \<in> set (conflictList
         (homonymConflicts (take 2) [(str ''00'', str ''there''), (str ''01'', str ''their'')]) (str ''01''))"
proof -
  have d: "distinct (map fst [(str ''00'', str ''there''), (str ''01'', str ''their'')])"
    by (simp add: str_def)
  have m: "str ''01'' \<in> set (conflictList
      (homonymConflicts (take 2) [(str ''00'', str ''there''), (str ''01'', str ''their'')]) (str ''00''))"
    by (simp add: homonym_eval)
  show ?thesis
    using d m conflict_map_symmetric_irreflexive [OF d, of "str ''01''" "take 2" "str ''00''"]
    by simp
qed

text \<open>
  Claim C4. \<open>groupHomonyms\<close> counts the words of a partition before it removes the
  repetitions: a word that occurs twice forms a group of its own, with one word in it, and the
  two numbers that carry it are recorded as conflicting.
\<close>

theorem repeated_word_forms_a_group:
  "groupHomonyms metaphone [str ''see'', str ''see''] False =
     [\<lparr>phoneticCode = metaphone (str ''see''), words = [str ''see'']\<rparr>]
   \<and> homonymConflicts metaphone [(str ''00'', str ''see''), (str ''01'', str ''see'')] (str ''00'')
       = Some [str ''01'']"
  by (simp add: homonym_eval)

end
